theory Spec2Isabelle
  imports Main
begin

section \<open>The algebra layer: the prime field GF(q) and its polynomials\<close>

text \<open>
  The program computes in Sage's \<open>GF(q)\<close> and \<open>PolynomialRing(gf, 'x')\<close>.  A field element
  is modelled by its representative in \<open>{0..<q}\<close> (what \<open>int(element)\<close> returns), a Python
  integer that is coerced into the field by its residue modulo \<open>q\<close>.  A polynomial is the
  list that Sage's \<open>.list()\<close> returns: the coefficients from degree 0 upwards, without
  trailing zeros; the zero polynomial is the empty list and has degree \<open>-1\<close>.
\<close>

datatype py_error = ZeroDivisionError | IndexError

definition is_prime :: "int \<Rightarrow> bool" where
  "is_prime q = (1 < q \<and> (\<forall>d \<in> set [2..q - 1]. \<not> d dvd q))"

text \<open>Division in GF(q): the inverse of a nonzero element, found by search.\<close>

definition inv_mod :: "int \<Rightarrow> int \<Rightarrow> int" where
  "inv_mod q a = (case find (\<lambda>b. (a * b) mod q = 1) [0..q - 1] of Some b \<Rightarrow> b | None \<Rightarrow> 0)"

text \<open>Dropping the trailing zeros of a coefficient list.\<close>

fun strip :: "int list \<Rightarrow> int list" where
  "strip [] = []"
| "strip (c # cs) = (let r = strip cs in if r = [] \<and> c = 0 then [] else c # r)"

text \<open>\<open>ring(coefficients)\<close>: coerce every entry into GF(q) and drop the trailing zeros.\<close>

definition poly :: "int \<Rightarrow> int list \<Rightarrow> int list" where
  "poly q cs = strip (map (\<lambda>c. c mod q) cs)"

text \<open>\<open>p.degree()\<close>, with Sage's convention that the zero polynomial has degree \<open>-1\<close>.\<close>

definition degree :: "int list \<Rightarrow> int" where
  "degree p = int (length p) - 1"

text \<open>\<open>p[i]\<close>: the coefficient of degree \<open>i\<close>, zero beyond the degree.\<close>

definition coeff :: "int list \<Rightarrow> nat \<Rightarrow> int" where
  "coeff p i = (if i < length p then p ! i else 0)"

text \<open>\<open>p(a)\<close>: evaluation at a point, by Horner's rule in GF(q).\<close>

fun peval :: "int \<Rightarrow> int list \<Rightarrow> int \<Rightarrow> int" where
  "peval q [] a = 0"
| "peval q (c # cs) a = (c + a * peval q cs a) mod q"

fun padd :: "int \<Rightarrow> int list \<Rightarrow> int list \<Rightarrow> int list" where
  "padd q [] bs = map (\<lambda>b. b mod q) bs"
| "padd q as [] = map (\<lambda>a. a mod q) as"
| "padd q (a # as) (b # bs) = ((a + b) mod q) # padd q as bs"

definition psmult :: "int \<Rightarrow> int \<Rightarrow> int list \<Rightarrow> int list" where
  "psmult q c p = map (\<lambda>a. (c * a) mod q) p"

fun pmul :: "int \<Rightarrow> int list \<Rightarrow> int list \<Rightarrow> int list" where
  "pmul q [] bs = []"
| "pmul q (a # as) bs = padd q (psmult q a bs) (0 # pmul q as bs)"

text \<open>
  \<open>ring.lagrange_polynomial(points)\<close>: the interpolation polynomial of the points, in
  Lagrange's form: the sum over the points \<open>(x\<^sub>j, y\<^sub>j)\<close> of \<open>y\<^sub>j\<close> times the product over
  the other abscissae \<open>x\<^sub>m\<close> of \<open>(x - x\<^sub>m) / (x\<^sub>j - x\<^sub>m)\<close>.  Two points with the same abscissa
  in GF(q) make Sage divide by zero.
\<close>

definition lagrange_basis :: "int \<Rightarrow> int list \<Rightarrow> int \<Rightarrow> int list" where
  "lagrange_basis q xs xj =
     foldr (\<lambda>xm b. pmul q [(- xm * inv_mod q (xj - xm)) mod q, inv_mod q (xj - xm)] b)
       (filter (\<lambda>xm. xm mod q \<noteq> xj mod q) xs) [1]"

definition lagrange_sum :: "int \<Rightarrow> int list \<Rightarrow> (int \<times> int) list \<Rightarrow> int list" where
  "lagrange_sum q xs pts =
     foldr (\<lambda>(xj, yj) s. padd q (psmult q yj (lagrange_basis q xs xj)) s) pts []"

definition lagrange_polynomial :: "int \<Rightarrow> (int \<times> int) list \<Rightarrow> py_error + int list" where
  "lagrange_polynomial q pts =
     (if distinct (map (\<lambda>(x, y). x mod q) pts)
      then Inr (poly q (lagrange_sum q (map fst pts) pts))
      else Inl ZeroDivisionError)"

section \<open>The encoder\<close>

text \<open>
  \<open>rs_encoder(msg, n, gf)\<close>: interpolate through the points \<open>(i, msg[i])\<close>, evaluate at
  \<open>0, ..., n - 1\<close> and return the evaluations as the coefficients of a polynomial.
\<close>

definition rs_encoder :: "int list \<Rightarrow> nat \<Rightarrow> int \<Rightarrow> py_error + int list" where
  "rs_encoder msg n q =
     (let k = length msg;
          alphas_k = map int [0..<k]
      in case lagrange_polynomial q (zip alphas_k msg) of
           Inl e \<Rightarrow> Inl e
         | Inr lp \<Rightarrow>
             (let codeword = map (\<lambda>a. peval q lp (int a)) [0..<n]
              in Inr (poly q codeword)))"

text \<open>
  The two readings of a message: the claim's coefficient form, the value at \<open>i\<close> of the
  polynomial whose coefficient of degree \<open>j\<close> is \<open>msg[j]\<close>, and the point-value form, the
  value at \<open>i\<close> of Lagrange's formula for the points \<open>(j, msg[j])\<close>.
\<close>

definition coefficient_form :: "int \<Rightarrow> int list \<Rightarrow> nat \<Rightarrow> int" where
  "coefficient_form q msg i = (\<Sum>j\<leftarrow>[0..<length msg]. msg ! j * int i ^ j) mod q"

definition lagrange_form :: "int \<Rightarrow> int list \<Rightarrow> nat \<Rightarrow> int" where
  "lagrange_form q msg i =
     (\<Sum>j\<leftarrow>[0..<length msg]. msg ! j *
        (\<Prod>m\<leftarrow>filter (\<lambda>m. int m mod q \<noteq> int j mod q) [0..<length msg].
           (int i - int m) * inv_mod q (int j - int m))) mod q"

section \<open>The candidate filter\<close>

text \<open>
  The inner loop of \<open>get_factors_with_less_errors\<close>: count the points where the factor
  misses, and leave the loop as soon as the count exceeds \<open>num_of_errors\<close>.
\<close>

fun count_errors :: "int \<Rightarrow> int list \<Rightarrow> (int \<times> int) list \<Rightarrow> int \<Rightarrow> int \<Rightarrow> int" where
  "count_errors q factor [] num_of_errors current_errors = current_errors"
| "count_errors q factor ((x, y) # rest) num_of_errors current_errors =
     (if peval q factor x \<noteq> y mod q
      then (if current_errors + 1 > num_of_errors then current_errors + 1
            else count_errors q factor rest num_of_errors (current_errors + 1))
      else count_errors q factor rest num_of_errors current_errors)"

fun get_factors_with_less_errors ::
  "int \<Rightarrow> int list list \<Rightarrow> int list \<Rightarrow> int list \<Rightarrow> int \<Rightarrow> int \<Rightarrow> int list list" where
  "get_factors_with_less_errors q [] xs ys num_of_errors k = []"
| "get_factors_with_less_errors q (factor # factors) xs ys num_of_errors k =
     (if degree factor > k then get_factors_with_less_errors q factors xs ys num_of_errors k
      else if count_errors q factor (zip xs ys) num_of_errors 0 \<le> num_of_errors
      then factor # get_factors_with_less_errors q factors xs ys num_of_errors k
      else get_factors_with_less_errors q factors xs ys num_of_errors k)"

text \<open>The number of points \<open>(x, y)\<close> with \<open>P(x) \<noteq> y\<close>.\<close>

definition mismatches :: "int \<Rightarrow> int list \<Rightarrow> int list \<Rightarrow> int list \<Rightarrow> int" where
  "mismatches q P xs ys = int (length (filter (\<lambda>(x, y). peval q P x \<noteq> y mod q) (zip xs ys)))"

text \<open>The filter as the specification words it: degree below \<open>k\<close>, at most \<open>t\<close> mismatches.\<close>

definition spec_candidate_filter ::
  "int \<Rightarrow> int list list \<Rightarrow> int list \<Rightarrow> int list \<Rightarrow> int \<Rightarrow> int \<Rightarrow> int list list" where
  "spec_candidate_filter q factors xs ys t k =
     filter (\<lambda>P. degree P < k \<and> mismatches q P xs ys \<le> t) factors"

section \<open>The unique decoder\<close>

text \<open>The right-hand side and the coefficient matrix that \<open>rs_decoder\<close> builds.\<close>

definition result_column :: "int \<Rightarrow> int list \<Rightarrow> int list" where
  "result_column q codeword =
     map (\<lambda>(alpha, element). ((- 1) * element * int alpha ^ 2) mod q) (enumerate 0 codeword)"

definition equations :: "int \<Rightarrow> int list \<Rightarrow> int list list" where
  "equations q codeword =
     (let n = length codeword
      in map (\<lambda>i. map (\<lambda>j.
           if j = 0 then codeword ! i mod q
           else if j = 1 then (codeword ! i * int i) mod q
           else if j = 2 then q - 1
           else (q - (int i ^ (j - 2)) mod q) mod q) [0..<n]) [0..<n])"

text \<open>
  The system as the specification words it, for the error bound \<open>t\<close>: the unknowns are the
  \<open>t\<close> low coefficients of the monic \<open>E\<close> of degree \<open>t\<close> and the \<open>n - t\<close> coefficients of \<open>Q\<close>,
  and row \<open>i\<close> states \<open>codeword[i] * E(i) = Q(i)\<close>, with the leading term of \<open>E\<close> moved to the
  right-hand side.
\<close>

definition spec_equations :: "int \<Rightarrow> int list \<Rightarrow> nat \<Rightarrow> int list list" where
  "spec_equations q codeword t =
     (let n = length codeword
      in map (\<lambda>i. map (\<lambda>j.
           if j < t then (codeword ! i * int i ^ j) mod q
           else (- (int i ^ (j - t))) mod q) [0..<n]) [0..<n])"

definition spec_result_column :: "int \<Rightarrow> int list \<Rightarrow> nat \<Rightarrow> int list" where
  "spec_result_column q codeword t =
     map (\<lambda>i. (- (codeword ! i * int i ^ t)) mod q) [0..<length codeword]"

text \<open>
  \<open>Matrix(ring, equations).solve_right(vector(ring, result_column))\<close>, by Gauss-Jordan
  elimination on the augmented rows.  \<open>None\<close> stands for the exception Sage raises when
  the system has no solution.  When the system has several solutions Sage returns one of
  them; here the unknowns without a pivot are zero.
\<close>

definition is_solution :: "int \<Rightarrow> int list list \<Rightarrow> int list \<Rightarrow> int list \<Rightarrow> bool" where
  "is_solution q A b u =
     (\<forall>i < length A. (\<Sum>j\<leftarrow>[0..<length u]. A ! i ! j * u ! j) mod q = b ! i mod q)"

definition row_scale :: "int \<Rightarrow> int \<Rightarrow> int list \<Rightarrow> int list" where
  "row_scale q c r = map (\<lambda>a. (c * a) mod q) r"

definition row_sub :: "int \<Rightarrow> int list \<Rightarrow> int \<Rightarrow> int list \<Rightarrow> int list" where
  "row_sub q r c p = map (\<lambda>(a, b). (a - c * b) mod q) (zip r p)"

fun eliminate ::
  "int \<Rightarrow> nat list \<Rightarrow> (nat \<times> int list) list \<Rightarrow> int list list
     \<Rightarrow> (nat \<times> int list) list \<times> int list list" where
  "eliminate q [] pivots rows = (pivots, rows)"
| "eliminate q (c # cs) pivots rows =
     (case find (\<lambda>r. r ! c \<noteq> 0) rows of
        None \<Rightarrow> eliminate q cs pivots rows
      | Some r \<Rightarrow>
          (let p = row_scale q (inv_mod q (r ! c)) r;
               clear = (\<lambda>s. row_sub q s (s ! c) p)
           in eliminate q cs (map (\<lambda>(d, s). (d, clear s)) pivots @ [(c, p)])
                (map clear (remove1 r rows))))"

definition solve_right :: "int \<Rightarrow> nat \<Rightarrow> int list list \<Rightarrow> int list \<Rightarrow> int list option" where
  "solve_right q n A b =
     (case eliminate q [0..<n] []
             (map (\<lambda>(r, bi). map (\<lambda>a. a mod q) r @ [bi mod q]) (zip A b)) of
        (pivots, rows) \<Rightarrow>
          if \<exists>r \<in> set rows. last r \<noteq> 0 then None
          else Some (map (\<lambda>c. case map_of pivots c of Some p \<Rightarrow> last p | None \<Rightarrow> 0) [0..<n]))"

text \<open>
  \<open>Q % E\<close>: the remainder of the division by a polynomial whose leading coefficient is
  invertible (\<open>E\<close> is monic), kept as a list of \<open>length E - 1\<close> coefficients at most and
  stripped at the end.
\<close>

fun pmod :: "int \<Rightarrow> int list \<Rightarrow> int list \<Rightarrow> int list" where
  "pmod q [] e = []"
| "pmod q (a # p) e =
     (let r = (a mod q) # pmod q p e
      in if length r < length e then r
         else (let c = (last r * inv_mod q (last e)) mod q
               in butlast (map (\<lambda>(x, y). (x - c * y) mod q) (zip r e))))"

definition poly_rem :: "int \<Rightarrow> int list \<Rightarrow> int list \<Rightarrow> int list" where
  "poly_rem q p e = strip (pmod q p e)"

text \<open>
  \<open>rs_decoder(codeword, k, num_of_errors, gf)\<close>.  \<open>Inr None\<close> is the \<open>None\<close> the function
  returns when the system has no solution or \<open>E\<close> does not divide \<open>Q\<close>; \<open>Inl\<close> is an
  exception that leaves the function.  The quotient \<open>F = Q // E\<close> is computed by the
  source and never used.
\<close>

definition rs_decoder :: "int list \<Rightarrow> nat \<Rightarrow> nat \<Rightarrow> int \<Rightarrow> py_error + int list option" where
  "rs_decoder codeword k num_of_errors q =
     (let n = length codeword
      in case solve_right q n (equations q codeword) (result_column q codeword) of
           None \<Rightarrow> Inr None
         | Some unknowns \<Rightarrow>
             (let error_coeffs = take num_of_errors unknowns @ [1];
                  E = poly q error_coeffs;
                  q_coeffs = drop num_of_errors unknowns;
                  Q = poly q q_coeffs
              in if poly_rem q Q E \<noteq> [] then Inr None
                 else
                   (let correct_symbol_indices =
                          filter (\<lambda>alpha. peval q E (int alpha) \<noteq> 0) [0..<n];
                        correct_symbols = map (\<lambda>index. codeword ! index) correct_symbol_indices
                    in case lagrange_polynomial q
                              (zip (map int correct_symbol_indices) correct_symbols) of
                         Inl e \<Rightarrow> Inl e
                       | Inr interpolated_symbols \<Rightarrow>
                           Inr (Some (poly q
                             (map (\<lambda>index. peval q interpolated_symbols (int index)) [0..<k]))))))"

text \<open>The positions that survive the error locator the decoder found, if it found one.\<close>

definition surviving_positions :: "int list \<Rightarrow> nat \<Rightarrow> int \<Rightarrow> nat list option" where
  "surviving_positions codeword num_of_errors q =
     (case solve_right q (length codeword) (equations q codeword) (result_column q codeword) of
        None \<Rightarrow> None
      | Some unknowns \<Rightarrow>
          Some (filter (\<lambda>alpha. peval q (poly q (take num_of_errors unknowns @ [1])) (int alpha) \<noteq> 0)
                  [0..<length codeword]))"

section \<open>The list decoder\<close>

text \<open>\<open>int(sqrt(m))\<close>: the integer part of the square root.\<close>

primrec sqrt_down :: "nat \<Rightarrow> nat \<Rightarrow> nat" where
  "sqrt_down m 0 = 0"
| "sqrt_down m (Suc r) = (if Suc r * Suc r \<le> m then Suc r else sqrt_down m r)"

definition isqrt :: "nat \<Rightarrow> nat" where
  "isqrt m = sqrt_down m m"

text \<open>
  The row that \<open>rs_list_decoder\<close> appends for the received point \<open>alpha\<close>: one entry for
  each \<open>j\<close> in \<open>range(D // k + 1)\<close> and each \<open>i\<close> in \<open>range(D - k * j + 1)\<close>.
\<close>

definition list_entry :: "int \<Rightarrow> int list \<Rightarrow> nat \<Rightarrow> nat \<Rightarrow> nat \<Rightarrow> int" where
  "list_entry q codeword alpha j i =
     (let y_coeff = codeword ! alpha;
          y_coeff = (if y_coeff = 0 \<and> j = 0 then 1 else y_coeff)
      in (int alpha ^ i * y_coeff ^ j) mod q)"

definition list_row :: "int \<Rightarrow> int list \<Rightarrow> nat \<Rightarrow> nat \<Rightarrow> nat \<Rightarrow> int list" where
  "list_row q codeword k D alpha =
     concat (map (\<lambda>j. map (\<lambda>i. list_entry q codeword alpha j i) [0..<D - k * j + 1])
               [0..<D div k + 1])"

definition list_equations :: "int \<Rightarrow> int list \<Rightarrow> nat \<Rightarrow> int list list" where
  "list_equations q codeword k =
     (let n = length codeword;
          D = isqrt (2 * k * n)
      in map (\<lambda>alpha. list_row q codeword k D alpha) [0..<n])"

text \<open>The position in a row of the entry for the monomial \<open>x\<^sup>i y\<^sup>j\<close>.\<close>

definition monomial_index :: "nat \<Rightarrow> nat \<Rightarrow> nat \<Rightarrow> nat \<Rightarrow> nat" where
  "monomial_index k D j i = (\<Sum>b\<leftarrow>[0..<j]. D - k * b + 1) + i"

text \<open>Cutting the kernel vector into the rows \<open>qij[j]\<close>, of \<open>D - k * j + 1\<close> entries each.\<close>

fun split_rows :: "nat list \<Rightarrow> int list \<Rightarrow> int list list" where
  "split_rows [] unknowns = []"
| "split_rows (m # ms) unknowns = take m unknowns # split_rows ms (drop m unknowns)"

text \<open>
  A bivariate polynomial is the list of its rows: row \<open>j\<close> holds the coefficients of
  \<open>x\<^sup>0 y\<^sup>j, x\<^sup>1 y\<^sup>j, ...\<close>, as \<open>qij\<close> does in the source.
\<close>

fun badd :: "int \<Rightarrow> int list list \<Rightarrow> int list list \<Rightarrow> int list list" where
  "badd q [] gs = map (\<lambda>g. map (\<lambda>c. c mod q) g) gs"
| "badd q fs [] = map (\<lambda>f. map (\<lambda>c. c mod q) f) fs"
| "badd q (f # fs) (g # gs) = padd q f g # badd q fs gs"

definition bneg :: "int \<Rightarrow> int list list \<Rightarrow> int list list" where
  "bneg q fs = map (\<lambda>f. map (\<lambda>c. (- c) mod q) f) fs"

definition y_gen :: "int list list" where
  "y_gen = [[], [1]]"

definition uses_x :: "int \<Rightarrow> int list list \<Rightarrow> bool" where
  "uses_x q fs = (\<exists>f \<in> set fs. 1 < length (poly q f))"

definition uses_y :: "int \<Rightarrow> int list list \<Rightarrow> bool" where
  "uses_y q fs = (\<exists>f \<in> set (drop 1 fs). poly q f \<noteq> [])"

definition is_univariate :: "int \<Rightarrow> int list list \<Rightarrow> bool" where
  "is_univariate q fs = (\<not> (uses_x q fs \<and> uses_y q fs))"

definition univariate_polynomial :: "int \<Rightarrow> int list list \<Rightarrow> int list" where
  "univariate_polynomial q fs =
     (if uses_y q fs then poly q (map (\<lambda>f. coeff f 0) fs)
      else (case fs of [] \<Rightarrow> [] | f # _ \<Rightarrow> poly q f))"

text \<open>\<open>get_p_from_factor(factor, ring)\<close>.\<close>

definition get_p_from_factor :: "int \<Rightarrow> int list list \<Rightarrow> int list option" where
  "get_p_from_factor q factor =
     (if is_univariate q (badd q factor (bneg q y_gen))
      then Some (univariate_polynomial q (badd q y_gen (bneg q factor)))
      else None)"

text \<open>
  Lines 218 to 238 of \<open>rs_list_decoder\<close>: cut the kernel vector into the coefficients
  \<open>qij\<close> of the bivariate polynomial \<open>Q\<close>, factor \<open>Q\<close>, and collect the polynomials that
  \<open>get_p_from_factor\<close> yields.  \<open>factor\<close> stands for Sage's \<open>Q.factor()\<close>, the irreducible
  factors with their multiplicities.
\<close>

definition extract_factors ::
  "(int \<Rightarrow> int list list \<Rightarrow> (int list list \<times> nat) list) \<Rightarrow> int \<Rightarrow> nat \<Rightarrow> nat \<Rightarrow> int list
     \<Rightarrow> int list list" where
  "extract_factors factor q k D unknowns =
     (let qij = split_rows (map (\<lambda>j. D - k * j + 1) [0..<D div k + 1]) unknowns;
          factors = factor q qij
      in concat (map (\<lambda>(f, m).
           case get_p_from_factor q f of None \<Rightarrow> [] | Some p \<Rightarrow> [p]) factors))"

text \<open>
  \<open>rs_list_decoder(codeword, k, num_of_errors, GF)\<close>.  The two calls into Sage that the
  function makes are parameters: \<open>right_kernel\<close> stands for
  \<open>Matrix(GF, equations).right_kernel().matrix()\<close>, the rows of a basis of the null space,
  and \<open>factor\<close> for \<open>Q.factor()\<close>.  The function takes row \<open>[0]\<close> of the basis, which raises
  \<open>IndexError\<close> when the basis is empty, and divides by \<open>k\<close>.  \<open>Inr None\<close> is the \<open>None\<close>
  of line 241.
\<close>

definition rs_list_decoder ::
  "(int \<Rightarrow> int list list \<Rightarrow> int list list) \<Rightarrow> (int \<Rightarrow> int list list \<Rightarrow> (int list list \<times> nat) list)
     \<Rightarrow> int list \<Rightarrow> nat \<Rightarrow> int \<Rightarrow> int \<Rightarrow> py_error + int list list option" where
  "rs_list_decoder right_kernel factor codeword k num_of_errors q =
     (let n = length codeword;
          D = isqrt (2 * k * n)
      in if k = 0 \<and> 0 < n then Inl ZeroDivisionError
         else
           (case right_kernel q (list_equations q codeword k) of
              [] \<Rightarrow> Inl IndexError
            | unknowns # _ \<Rightarrow>
                if k = 0 then Inl ZeroDivisionError
                else
                  (let factors_list = extract_factors factor q k D unknowns
                   in if length factors_list = 0 then Inr None
                      else
                        (let good_factors = get_factors_with_less_errors q factors_list
                                              (map int [0..<n]) codeword num_of_errors (int k);
                             msg_list = map (\<lambda>f. map (\<lambda>a. peval q f (int a)) [0..<k]) good_factors
                         in Inr (Some msg_list)))))"

section \<open>Evaluation of polynomials\<close>

lemma mod_lin: "(a + x * (b mod q)) mod q = (a + x * b) mod (q::int)"
  by (metis mod_add_right_eq mod_mult_right_eq)

lemma peval_mod [simp]: "peval q p x mod q = peval q p x"
  by (cases p) simp_all

lemma peval_map_mod [simp]: "peval q (map (\<lambda>c. c mod q) p) x = peval q p x"
  by (induction p) (simp_all add: mod_simps)

lemma strip_Nil_peval: "strip p = [] \<Longrightarrow> peval q p x = 0"
  by (induction p) (simp_all add: Let_def split: if_splits)

lemma peval_strip [simp]: "peval q (strip p) x = peval q p x"
  by (induction p) (simp_all add: Let_def strip_Nil_peval)

lemma peval_poly [simp]: "peval q (poly q p) x = peval q p x"
  by (simp add: poly_def)

lemma peval_padd: "peval q (padd q p r) x = (peval q p x + peval q r x) mod q"
proof (induction q p r rule: padd.induct)
  case (3 q a as b bs)
  have "peval q (padd q (a # as) (b # bs)) x = (a + b + x * (peval q as x + peval q bs x)) mod q"
    using 3 by (simp add: mod_lin mod_add_left_eq)
  also have "(a + b + x * (peval q as x + peval q bs x)) = (a + x * peval q as x) + (b + x * peval q bs x)"
    by (simp add: algebra_simps)
  also have "\<dots> mod q = (peval q (a # as) x + peval q (b # bs) x) mod q"
    by (simp add: mod_simps)
  finally show ?case .
qed (simp_all add: mod_add_left_eq)

lemma peval_psmult: "peval q (psmult q c p) x = (c * peval q p x) mod q"
proof (induction p)
  case (Cons a p)
  have "peval q (psmult q c (a # p)) x = (c * a + x * (c * peval q p x)) mod q"
    using Cons by (simp add: psmult_def mod_lin mod_add_left_eq)
  also have "c * a + x * (c * peval q p x) = c * (a + x * peval q p x)"
    by (simp add: algebra_simps)
  also have "\<dots> mod q = (c * peval q (a # p) x) mod q"
    by (simp add: mod_simps)
  finally show ?case .
qed (simp add: psmult_def)

lemma peval_pmul: "peval q (pmul q p r) x = (peval q p x * peval q r x) mod q"
proof (induction p)
  case (Cons a p)
  have "peval q (pmul q (a # p) r) x = (a * peval q r x + x * (peval q p x * peval q r x)) mod q"
    using Cons by (simp add: peval_padd peval_psmult mod_simps mod_lin)
  also have "a * peval q r x + x * (peval q p x * peval q r x) = (a + x * peval q p x) * peval q r x"
    by (simp add: algebra_simps)
  also have "\<dots> mod q = (peval q (a # p) x * peval q r x) mod q"
    by (simp add: mod_simps)
  finally show ?case .
qed simp

lemma strip_Nil_nth: "strip p = [] \<Longrightarrow> i < length p \<Longrightarrow> p ! i = 0"
  by (induction p arbitrary: i) (auto simp: Let_def nth_Cons split: if_splits nat.splits)

lemma coeff_strip: "coeff (strip p) i = coeff p i"
proof (induction p arbitrary: i)
  case (Cons c p)
  show ?case
  proof (cases i)
    case 0
    then show ?thesis by (simp add: coeff_def Let_def)
  next
    case (Suc j)
    have "coeff (strip p) j = coeff p j" by (rule Cons.IH)
    then show ?thesis using Suc
      by (auto simp: coeff_def Let_def strip_Nil_nth split: if_splits)
  qed
qed (simp add: coeff_def)

lemma coeff_poly: "i < length cs \<Longrightarrow> coeff (poly q cs) i = cs ! i mod q"
  by (simp add: poly_def coeff_strip) (simp add: coeff_def)

lemma length_strip: "length (strip p) \<le> length p"
  by (induction p) (simp_all add: Let_def)

section \<open>Inverses in GF(q)\<close>

lemma is_prime_coprime:
  assumes "is_prime q" "a mod q \<noteq> 0"
  shows "gcd a q = 1"
proof -
  from assms(1) have q1: "1 < q" and nd: "\<And>d. 2 \<le> d \<Longrightarrow> d < q \<Longrightarrow> \<not> d dvd q"
    by (auto simp: is_prime_def)
  let ?g = "gcd a q"
  have gq: "?g dvd q" and ga: "?g dvd a" by simp_all
  have g0: "0 \<le> ?g" by simp
  have gne: "?g \<noteq> 0" using q1 by simp
  have gle: "?g \<le> q" using gq q1 by (intro zdvd_imp_le) simp_all
  have "?g \<noteq> q"
  proof
    assume "?g = q"
    with ga have "q dvd a" by simp
    then show False using assms(2) by (simp add: mod_eq_0_iff_dvd)
  qed
  with gle have "?g < q" by simp
  with nd[of ?g] gq have "\<not> 2 \<le> ?g" by blast
  with g0 gne show ?thesis by linarith
qed

lemma inv_mod_ok:
  assumes "is_prime q" "a mod q \<noteq> 0"
  shows "(a * inv_mod q a) mod q = 1"
proof -
  from assms(1) have q1: "1 < q" by (simp add: is_prime_def)
  obtain u v where uv: "u * a + v * q = gcd a q" using bezout_int by blast
  then have "u * a + v * q = 1" using is_prime_coprime[OF assms] by simp
  then have "a * u = 1 + (- v) * q" by (simp add: algebra_simps)
  then have "(a * u) mod q = 1" using q1 by (simp del: mult_minus_left)
  then have "(a * (u mod q)) mod q = 1" by (simp add: mod_mult_right_eq)
  moreover have "u mod q \<in> set [0..q - 1]" using q1 by (simp add: pos_mod_bound)
  ultimately have "\<exists>b \<in> set [0..q - 1]. (a * b) mod q = 1" by blast
  then obtain b where b: "find (\<lambda>b. (a * b) mod q = 1) [0..q - 1] = Some b"
    by (cases "find (\<lambda>b. (a * b) mod q = 1) [0..q - 1]") (auto simp: find_None_iff)
  then have "(a * b) mod q = 1" by (auto simp: find_Some_iff)
  with b show ?thesis by (simp add: inv_mod_def)
qed

section \<open>Interpolation\<close>

lemma peval_linear_factor: "peval q [c0 mod q, c1] x = (c0 + x * c1) mod q"
  by (simp add: mod_lin mod_add_left_eq)

lemma peval_basis_fold:
  assumes "1 < q"
  shows "peval q (foldr (\<lambda>xm b. pmul q [(- xm * inv_mod q (xj - xm)) mod q, inv_mod q (xj - xm)] b) ys [1]) x
       = (\<Prod>xm\<leftarrow>ys. (x - xm) * inv_mod q (xj - xm)) mod q"
proof (induction ys)
  case Nil
  then show ?case using assms by simp
next
  case (Cons y ys)
  have "(- y * inv_mod q (xj - y) + x * inv_mod q (xj - y)) = (x - y) * inv_mod q (xj - y)"
    by (simp add: algebra_simps)
  then show ?case using Cons
    by (simp only: foldr.simps o_apply peval_pmul peval_linear_factor list.map prod_list.Cons mod_mult_eq)
qed

lemma peval_lagrange_basis:
  "1 < q \<Longrightarrow> peval q (lagrange_basis q xs xj) x =
     (\<Prod>xm\<leftarrow>filter (\<lambda>xm. xm mod q \<noteq> xj mod q) xs. (x - xm) * inv_mod q (xj - xm)) mod q"
  unfolding lagrange_basis_def by (rule peval_basis_fold)

lemma peval_lagrange_sum:
  "peval q (lagrange_sum q xs pts) x =
     (\<Sum>(xj, yj)\<leftarrow>pts. yj * peval q (lagrange_basis q xs xj) x) mod q"
proof (induction pts)
  case Nil
  then show ?case by (simp add: lagrange_sum_def)
next
  case (Cons p pts)
  obtain xj yj where p: "p = (xj, yj)" by (cases p)
  have "peval q (lagrange_sum q xs (p # pts)) x =
        ((yj * peval q (lagrange_basis q xs xj) x) mod q + peval q (lagrange_sum q xs pts) x) mod q"
    by (simp add: lagrange_sum_def p peval_padd peval_psmult)
  also have "\<dots> = (yj * peval q (lagrange_basis q xs xj) x
                 + (\<Sum>(xj, yj)\<leftarrow>pts. yj * peval q (lagrange_basis q xs xj) x)) mod q"
    by (simp add: Cons mod_add_eq)
  finally show ?case by (simp add: p)
qed

lemma sum_list_mod_cong:
  "(\<And>j. j \<in> set js \<Longrightarrow> f j mod q = g j mod (q::int)) \<Longrightarrow>
     sum_list (map f js) mod q = sum_list (map g js) mod q"
proof (induction js)
  case (Cons j js)
  have "f j mod q = g j mod q" using Cons.prems by simp
  moreover have "sum_list (map f js) mod q = sum_list (map g js) mod q"
    using Cons by simp
  ultimately have "(f j + sum_list (map f js)) mod q = (g j + sum_list (map g js)) mod q"
    by (rule mod_add_cong)
  then show ?case by simp
qed simp

lemma prod_list_mod_one:
  "1 < (q::int) \<Longrightarrow> (\<And>x. x \<in> set xs \<Longrightarrow> f x mod q = 1) \<Longrightarrow> prod_list (map f xs) mod q = 1"
proof (induction xs)
  case (Cons x xs)
  have "f x mod q = 1" using Cons.prems by simp
  moreover have "prod_list (map f xs) mod q = 1" using Cons by simp
  ultimately have "((f x mod q) * (prod_list (map f xs) mod q)) mod q = 1"
    using Cons.prems(1) by simp
  then have "(f x * prod_list (map f xs)) mod q = 1"
    by (simp only: mod_mult_eq)
  then show ?case by simp
qed simp

lemma zip_upt_nth:
  "zip (map int [0..<length msg]) msg = map (\<lambda>j. (int j, msg ! j)) [0..<length msg]"
  by (rule nth_equalityI) simp_all

lemma distinct_points:
  assumes "int (length msg) \<le> q"
  shows "distinct (map (\<lambda>(x, y). x mod q) (zip (map int [0..<length msg]) msg))"
proof -
  have "map (\<lambda>(x, y). x mod q) (zip (map int [0..<length msg]) msg)
        = map (\<lambda>j. int j mod q) [0..<length msg]"
    by (simp add: zip_upt_nth o_def)
  also have "\<dots> = map int [0..<length msg]"
    using assms by (intro map_cong) auto
  finally show ?thesis by (simp add: distinct_map)
qed

lemma rs_encoder_value:
  assumes "int (length msg) \<le> q"
  shows "rs_encoder msg n q =
     Inr (poly q (map (\<lambda>a. peval q (lagrange_sum q (map int [0..<length msg])
                                        (zip (map int [0..<length msg]) msg)) (int a)) [0..<n]))"
  using distinct_points[OF assms]
  by (simp add: rs_encoder_def lagrange_polynomial_def Let_def)

lemma lagrange_sum_form:
  assumes "1 < q"
  shows "peval q (lagrange_sum q (map int [0..<length msg]) (zip (map int [0..<length msg]) msg)) (int i)
         = lagrange_form q msg i"
proof -
  let ?k = "length msg"
  let ?B = "\<lambda>j. (\<Prod>m\<leftarrow>filter (\<lambda>m. int m mod q \<noteq> int j mod q) [0..<?k].
                    (int i - int m) * inv_mod q (int j - int m))"
  have basis: "peval q (lagrange_basis q (map int [0..<?k]) (int j)) (int i) = ?B j mod q" for j
    using assms by (simp add: peval_lagrange_basis filter_map o_def)
  have "peval q (lagrange_sum q (map int [0..<?k]) (zip (map int [0..<?k]) msg)) (int i)
        = (\<Sum>j\<leftarrow>[0..<?k]. msg ! j * (?B j mod q)) mod q"
    by (simp add: peval_lagrange_sum zip_upt_nth o_def basis)
  also have "\<dots> = (\<Sum>j\<leftarrow>[0..<?k]. msg ! j * ?B j) mod q"
    by (rule sum_list_mod_cong) (simp add: mod_mult_right_eq)
  finally show ?thesis by (simp add: lagrange_form_def)
qed

lemma coeff_encoder:
  assumes "1 < q" "int (length msg) \<le> q" "i < n"
  shows "\<exists>cw. rs_encoder msg n q = Inr cw \<and> coeff cw i = lagrange_form q msg i"
proof -
  let ?lp = "lagrange_sum q (map int [0..<length msg]) (zip (map int [0..<length msg]) msg)"
  have "coeff (poly q (map (\<lambda>a. peval q ?lp (int a)) [0..<n])) i = peval q ?lp (int i)"
    using assms(3) by (simp add: coeff_poly)
  then show ?thesis
    using rs_encoder_value[OF assms(2)] lagrange_sum_form[OF assms(1)] by simp
qed

lemma lagrange_form_at_point:
  assumes "is_prime q" "int (length msg) \<le> q" "i < length msg"
  shows "lagrange_form q msg i = msg ! i mod q"
proof -
  let ?k = "length msg"
  from assms(1) have q1: "1 < q" by (simp add: is_prime_def)
  let ?B = "\<lambda>j. (\<Prod>m\<leftarrow>filter (\<lambda>m. int m mod q \<noteq> int j mod q) [0..<?k].
                    (int i - int m) * inv_mod q (int j - int m))"
  have small: "int j mod q = int j" if "j < ?k" for j
    using that assms(2) by simp
  have own: "?B i mod q = 1"
  proof (rule prod_list_mod_one[OF q1])
    fix m assume "m \<in> set (filter (\<lambda>m. int m mod q \<noteq> int i mod q) [0..<?k])"
    then have "int m mod q \<noteq> int i mod q" by simp
    then have "(int i - int m) mod q \<noteq> 0"
      by (metis mod_eq_dvd_iff mod_0_imp_dvd)
    then show "((int i - int m) * inv_mod q (int i - int m)) mod q = 1"
      by (rule inv_mod_ok[OF assms(1)])
  qed
  have other: "?B j = 0" if "j < ?k" "j \<noteq> i" for j
  proof -
    have "i \<in> set (filter (\<lambda>m. int m mod q \<noteq> int j mod q) [0..<?k])"
      using that assms(3) small by simp
    moreover have "(int i - int i) * inv_mod q (int j - int i) = 0" by simp
    ultimately show ?thesis
      by (subst prod_list_zero_iff) force
  qed
  have "lagrange_form q msg i = (\<Sum>j\<leftarrow>[0..<?k]. if j = i then msg ! i else 0) mod q"
    unfolding lagrange_form_def
  proof (rule sum_list_mod_cong)
    fix j assume "j \<in> set [0..<?k]"
    then have j: "j < ?k" by simp
    show "(msg ! j * ?B j) mod q = (if j = i then msg ! i else 0) mod q"
    proof (cases "j = i")
      case True
      have "(msg ! i * ?B i) mod q = (msg ! i * (?B i mod q)) mod q"
        by (simp add: mod_mult_right_eq)
      then show ?thesis using True own by simp
    next
      case False
      then show ?thesis using other[OF j] by simp
    qed
  qed
  also have "(\<Sum>j\<leftarrow>[0..<?k]. if j = i then msg ! i else 0) = msg ! i"
    using assms(3) by (simp add: sum_list_distinct_conv_sum_set)
  finally show ?thesis .
qed

section \<open>Claims about the encoder\<close>

text \<open>
  C3, as stated: the codeword symbol at evaluation point \<open>i\<close> is the coefficient-form value
  \<open>\<Sum>\<^sub>j msg[j] * i\<^sup>j mod q\<close>.  It fails: over GF(7) the message \<open>[1, 2, 3]\<close> is encoded as
  \<open>[1, 2, 3, 4, 5, 6]\<close>, whose symbol at point 1 is 2, while \<open>1 + 2 + 3 = 6\<close>.
\<close>

theorem encoder_not_coefficient_form:
  "rs_encoder [1, 2, 3] 6 7 = Inr [1, 2, 3, 4, 5, 6]
   \<and> coeff [1, 2, 3, 4, 5, 6] 1 = 2 \<and> coefficient_form 7 [1, 2, 3] 1 = 6"
  by code_simp

text \<open>
  C3, amended: the message entries are the values of the message polynomial at the points
  \<open>0, ..., k - 1\<close>, not its coefficients.  For a message of length \<open>k \<le> q\<close> and every
  \<open>i < n\<close> the encoder succeeds and the codeword symbol at evaluation point \<open>i\<close> is the value
  at \<open>i\<close> of Lagrange's interpolation formula for the points \<open>(j, msg[j])\<close>, that is
  \<open>\<Sum>\<^sub>j msg[j] * \<Prod>\<^sub>m\<^sub>\<noteq>\<^sub>j (i - m) / (j - m) mod q\<close>.
\<close>

theorem encoder_symbol_lagrange_form:
  assumes "1 < q" and "int (length msg) \<le> q" and "i < n"
  shows "\<exists>cw. rs_encoder msg n q = Inr cw \<and> coeff cw i = lagrange_form q msg i"
  using assms by (rule coeff_encoder)

theorem encoder_symbol_lagrange_form_witness:
  "(1::int) < 7 \<and> int (length [1, 2, 3::int]) \<le> 7 \<and> (4::nat) < 6
   \<and> (\<exists>cw. rs_encoder [1, 2, 3] 6 7 = Inr cw \<and> coeff cw 4 = lagrange_form 7 [1, 2, 3] 4)"
  using encoder_symbol_lagrange_form [of 7 "[1, 2, 3]" 4 6] by simp

text \<open>
  C9: the encoder returns a codeword of exactly \<open>n\<close> symbols, trailing zero evaluations
  included.  The source returns \<open>ring(codeword)\<close>, a polynomial, and a polynomial drops
  its trailing zero coefficients: over GF(7) the message \<open>[3, 2]\<close> with \<open>n = 4\<close> has the
  evaluations \<open>3, 2, 1, 0\<close>, and the returned polynomial has the three coefficients
  \<open>[3, 2, 1]\<close> and degree 2, not \<open>n - 1 = 3\<close>.
\<close>

theorem encoder_drops_trailing_zero:
  "rs_encoder [3, 2] 4 7 = Inr [3, 2, 1] \<and> length [3, 2, 1::int] = 3 \<and> degree [3, 2, 1] = 2"
  by code_simp

text \<open>
  C10, as stated: for every message of length \<open>k \<ge> 1\<close> and every \<open>n \<ge> k\<close> the codeword
  symbol at every evaluation point \<open>i < k\<close> is \<open>msg[i]\<close>.  It fails when the message is
  longer than the field: over GF(2) the message \<open>[0, 1, 0]\<close> with \<open>n = 3\<close> has the
  interpolation points \<open>0, 1, 2\<close>, the points 0 and 2 are the same element of GF(2), the
  interpolation divides by zero and the encoder returns no codeword.
\<close>

theorem encoder_raises_beyond_field_size:
  "is_prime 2 \<and> length [0, 1, 0::int] = 3 \<and> (3::nat) \<le> 3
   \<and> rs_encoder [0, 1, 0] 3 2 = Inl ZeroDivisionError"
  by code_simp

text \<open>
  C10, amended: over a prime field GF(q), for a message of \<open>k\<close> field elements with
  \<open>1 \<le> k \<le> q\<close> and \<open>n \<ge> k\<close>, the encoder succeeds and the codeword symbol at every
  evaluation point \<open>i < k\<close> is \<open>msg[i]\<close>.
\<close>

theorem encoder_systematic:
  assumes "is_prime q" and "int (length msg) \<le> q" and "\<forall>x \<in> set msg. 0 \<le> x \<and> x < q"
    and "length msg \<le> n" and "i < length msg"
  shows "\<exists>cw. rs_encoder msg n q = Inr cw \<and> coeff cw i = msg ! i"
proof -
  from assms(1) have q1: "1 < q" by (simp add: is_prime_def)
  have "i < n" using assms(4,5) by simp
  from coeff_encoder[OF q1 assms(2) this]
  obtain cw where cw: "rs_encoder msg n q = Inr cw" "coeff cw i = lagrange_form q msg i"
    by blast
  have "msg ! i \<in> set msg" using assms(5) by simp
  then have "msg ! i mod q = msg ! i" using assms(3) by simp
  then have "coeff cw i = msg ! i"
    using cw(2) lagrange_form_at_point[OF assms(1,2,5)] by simp
  with cw(1) show ?thesis by blast
qed

theorem encoder_systematic_witness:
  "is_prime 7 \<and> int (length [3, 2::int]) \<le> 7
   \<and> (0::int) \<le> 3 \<and> (3::int) < 7 \<and> (0::int) \<le> 2 \<and> (2::int) < 7
   \<and> length [3, 2::int] \<le> 4 \<and> (1::nat) < length [3, 2::int]
   \<and> (\<exists>cw. rs_encoder [3, 2] 4 7 = Inr cw \<and> coeff cw 1 = [3, 2] ! 1)"
proof -
  have p: "is_prime 7" by code_simp
  show ?thesis using p encoder_systematic [of 7 "[3, 2]" 4 1] by simp
qed

section \<open>The candidate filter: the loop and its closed form\<close>

lemma count_errors_le:
  "(count_errors q factor pts t c \<le> t) =
     (c + int (length (filter (\<lambda>(x, y). peval q factor x \<noteq> y mod q) pts)) \<le> t)"
proof (induction pts arbitrary: c)
  case Nil
  then show ?case by simp
next
  case (Cons p pts)
  obtain x y where p: "p = (x, y)" by (cases p)
  show ?case
  proof (cases "peval q factor x \<noteq> y mod q")
    case True
    show ?thesis
    proof (cases "c + 1 > t")
      case True
      with \<open>peval q factor x \<noteq> y mod q\<close> show ?thesis by (simp add: p)
    next
      case False
      with \<open>peval q factor x \<noteq> y mod q\<close> Cons.IH[of "c + 1"] show ?thesis
        by (simp add: p algebra_simps)
    qed
  next
    case False
    with Cons.IH[of c] show ?thesis by (simp add: p)
  qed
qed

lemma get_factors_filter:
  "get_factors_with_less_errors q factors xs ys t k =
     filter (\<lambda>P. degree P \<le> k \<and> mismatches q P xs ys \<le> t) factors"
  by (induction factors) (simp_all add: count_errors_le mismatches_def)

text \<open>
  C5, as stated: the filter returns exactly the polynomials of degree \<open>< k\<close> with at most
  \<open>t\<close> mismatches, and discards every polynomial of degree \<open>\<ge> k\<close>.  It fails: with
  \<open>k = 1\<close> and \<open>t = 0\<close> the polynomial \<open>x\<close>, of degree \<open>1 = k\<close>, agrees with the points
  \<open>(0, 0), (1, 1), (2, 2)\<close> and is returned, where the filter of the claim returns nothing.
\<close>

theorem candidate_filter_keeps_degree_k:
  "get_factors_with_less_errors 7 [[0, 1]] [0, 1, 2] [0, 1, 2] 0 1 = [[0, 1]]
   \<and> degree [0, 1] = 1
   \<and> spec_candidate_filter 7 [[0, 1]] [0, 1, 2] [0, 1, 2] 0 1 = []"
  by (simp add: spec_candidate_filter_def degree_def mismatches_def)

text \<open>
  C5, amended: the filter returns, in their order, exactly the polynomials whose degree is
  \<open>\<le> k\<close> (the source skips a factor only when \<open>factor.degree() > k\<close>) and whose mismatch
  count over the points \<open>zip(xs, ys)\<close> is \<open>\<le> t\<close>; the early exit of the counting loop does
  not change the result.
\<close>

theorem candidate_filter_exact:
  "get_factors_with_less_errors q factors xs ys t k =
     filter (\<lambda>P. degree P \<le> k \<and> mismatches q P xs ys \<le> t) factors"
  by (rule get_factors_filter)

section \<open>The linear system of the list decoder\<close>

lemma sqrt_down_spec:
  "sqrt_down m r \<le> r \<and> sqrt_down m r * sqrt_down m r \<le> m \<and>
     (\<forall>t. sqrt_down m r < t \<and> t \<le> r \<longrightarrow> m < t * t)"
proof (induction r)
  case 0
  then show ?case by auto
next
  case (Suc r)
  show ?case
  proof (cases "Suc r * Suc r \<le> m")
    case True
    then show ?thesis by simp
  next
    case False
    have "m < t * t" if "sqrt_down m r < t" "t \<le> Suc r" for t
    proof (cases "t = Suc r")
      case True
      with False show ?thesis by simp
    next
      case False
      with that Suc show ?thesis by auto
    qed
    with False Suc show ?thesis by auto
  qed
qed

lemma isqrt_floor: "isqrt m * isqrt m \<le> m \<and> m < (isqrt m + 1) * (isqrt m + 1)"
proof -
  let ?s = "isqrt m"
  have le: "?s \<le> m" and sq: "?s * ?s \<le> m"
    and up: "\<And>t. ?s < t \<Longrightarrow> t \<le> m \<Longrightarrow> m < t * t"
    using sqrt_down_spec[of m m] by (auto simp: isqrt_def)
  have "m < (?s + 1) * (?s + 1)"
  proof (cases "?s + 1 \<le> m")
    case True
    then show ?thesis using up[of "?s + 1"] by simp
  next
    case False
    with le have "?s = m" by simp
    then show ?thesis by simp
  qed
  with sq show ?thesis by simp
qed

lemma concat_nth_offset:
  "j < length xss \<Longrightarrow> i < length (xss ! j) \<Longrightarrow>
     concat xss ! (sum_list (map length (take j xss)) + i) = xss ! j ! i"
proof (induction xss arbitrary: j)
  case Nil
  then show ?case by simp
next
  case (Cons xs xss)
  show ?case
  proof (cases j)
    case 0
    with Cons.prems show ?thesis by (simp add: nth_append)
  next
    case (Suc j')
    with Cons.prems have "j' < length xss" "i < length (xss ! j')" by simp_all
    from Cons.IH[OF this] show ?thesis
      by (simp add: Suc nth_append add.assoc)
  qed
qed

lemma list_entry_value:
  "list_entry q codeword alpha j i = (int alpha ^ i * (codeword ! alpha) ^ j) mod q"
  by (simp add: list_entry_def Let_def)

lemma list_row_nth:
  assumes "j \<le> D div k" and "i \<le> D - k * j"
  shows "list_row q codeword k D alpha ! monomial_index k D j i
         = (int alpha ^ i * (codeword ! alpha) ^ j) mod q"
proof -
  let ?xss = "map (\<lambda>j. map (\<lambda>i. list_entry q codeword alpha j i) [0..<D - k * j + 1])
                  [0..<D div k + 1]"
  have j: "j < length ?xss" using assms(1) by simp
  have xj: "?xss ! j = map (\<lambda>i. list_entry q codeword alpha j i) [0..<D - k * j + 1]"
    using assms(1) by (simp del: upt_Suc)
  have i: "i < length (?xss ! j)" using assms(2) by (simp only: xj) simp
  have off: "sum_list (map length (take j ?xss)) = (\<Sum>b\<leftarrow>[0..<j]. D - k * b + 1)"
    using assms(1) by (simp del: upt_Suc add: take_map o_def)
  have "concat ?xss ! (sum_list (map length (take j ?xss)) + i) = ?xss ! j ! i"
    using j i by (rule concat_nth_offset)
  also have "?xss ! j ! i = list_entry q codeword alpha j i"
    using assms(2) by (simp only: xj) (simp del: upt_Suc)
  finally have cell: "concat ?xss ! (sum_list (map length (take j ?xss)) + i)
                      = list_entry q codeword alpha j i" .
  have row: "list_row q codeword k D alpha = concat ?xss"
    by (simp only: list_row_def)
  have idx: "monomial_index k D j i = sum_list (map length (take j ?xss)) + i"
    by (simp only: monomial_index_def off)
  show ?thesis
    unfolding row idx cell by (rule list_entry_value)
qed

lemma list_row_length:
  "length (list_row q codeword k D alpha) = monomial_index k D (D div k + 1) 0"
  by (simp del: upt_Suc add: list_row_def monomial_index_def length_concat o_def)

text \<open>
  C8: for a received word of length \<open>n\<close> and \<open>k \<ge> 1\<close> the list decoder takes
  \<open>D = floor(sqrt(2 k n))\<close>, that is \<open>D\<^sup>2 \<le> 2 k n < (D + 1)\<^sup>2\<close>, and builds one row for
  each received point \<open>(alpha, codeword[alpha])\<close>; the row has one entry for each monomial
  \<open>x\<^sup>i y\<^sup>j\<close> with \<open>j \<le> D div k\<close> and \<open>i \<le> D - k j\<close>, and the entry is the monomial at the
  point, \<open>alpha\<^sup>i * codeword[alpha]\<^sup>j mod q\<close>.  Powers are those of HOL, where \<open>0\<^sup>0 = 1\<close>: a
  received value 0 contributes 1 to the monomials \<open>y\<^sup>0\<close>, which is what the source's
  replacement of \<open>y_coeff\<close> by 1 for \<open>j = 0\<close> computes.
\<close>

theorem list_decoder_system:
  assumes "1 \<le> k" and "alpha < length codeword"
    and "j \<le> isqrt (2 * k * length codeword) div k"
    and "i \<le> isqrt (2 * k * length codeword) - k * j"
  shows "isqrt (2 * k * length codeword) * isqrt (2 * k * length codeword) \<le> 2 * k * length codeword
    \<and> 2 * k * length codeword
        < (isqrt (2 * k * length codeword) + 1) * (isqrt (2 * k * length codeword) + 1)
    \<and> length (list_equations q codeword k) = length codeword
    \<and> length (list_equations q codeword k ! alpha)
        = monomial_index k (isqrt (2 * k * length codeword))
            (isqrt (2 * k * length codeword) div k + 1) 0
    \<and> list_equations q codeword k ! alpha
          ! monomial_index k (isqrt (2 * k * length codeword)) j i
        = (int alpha ^ i * (codeword ! alpha) ^ j) mod q"
proof -
  let ?D = "isqrt (2 * k * length codeword)"
  have row: "list_equations q codeword k ! alpha = list_row q codeword k ?D alpha"
    using assms(2) by (simp add: list_equations_def Let_def)
  have len: "length (list_equations q codeword k) = length codeword"
    by (simp add: list_equations_def Let_def)
  show ?thesis
    using isqrt_floor[of "2 * k * length codeword"] len
      list_row_length[of q codeword k ?D alpha] list_row_nth[OF assms(3,4), of q codeword alpha]
    by (simp only: row)
qed

theorem list_decoder_system_witness:
  "(1::nat) \<le> 1 \<and> (0::nat) < length [0, 2::int]
   \<and> (0::nat) \<le> isqrt (2 * 1 * length [0, 2::int]) div 1
   \<and> (1::nat) \<le> isqrt (2 * 1 * length [0, 2::int]) - 1 * 0
   \<and> isqrt (2 * 1 * length [0, 2::int]) = 2
   \<and> list_equations 7 [0, 2] 1 = [[1, 0, 0, 0, 0, 0], [1, 1, 1, 2, 2, 4]]
   \<and> list_equations 7 [0, 2] 1 ! 0 ! monomial_index 1 (isqrt (2 * 1 * length [0, 2::int])) 0 1
       = (int 0 ^ 1 * ([0, 2] ! 0) ^ 0) mod 7"
proof -
  have D: "isqrt (2 * 1 * length [0, 2::int]) = 2" by code_simp
  have eqs: "list_equations 7 [0, 2] 1 = [[1, 0, 0, 0, 0, 0], [1, 1, 1, 2, 2, 4]]" by code_simp
  show ?thesis
    using D eqs list_decoder_system [of 1 0 "[0, 2]" 0 1 7] by simp
qed

section \<open>The decoder's linear system at three received words\<close>

text \<open>
  The results below evaluate the decoder at received words whose system has exactly one
  solution, or none, so that they do not depend on which solution a solver picks.
\<close>

lemma system_113_unique:
  assumes len: "length u = 3"
    and sol: "is_solution 7 (equations 7 [1, 1, 3]) (result_column 7 [1, 1, 3]) u"
  shows "map (\<lambda>x. x mod 7) u = [4, 6, 4]"
proof -
  obtain u0 u1 u2 where u: "u = [u0, u1, u2]"
    using len by (auto simp: eval_nat_numeral length_Suc_conv)
  have A: "equations 7 [1, 1, 3] = [[1, 0, 6], [1, 1, 6], [3, 6, 6]]"
    by code_simp
  have B: "result_column 7 [1, 1, 3] = [0, 6, 2]"
    by code_simp
  have e0: "(u0 + 6 * u2) mod 7 = 0 mod 7"
    using sol[unfolded is_solution_def A B u, rule_format, of 0]
    by (simp add: eval_nat_numeral add.assoc)
  have e1: "(u0 + u1 + 6 * u2) mod 7 = 6 mod 7"
    using sol[unfolded is_solution_def A B u, rule_format, of 1]
    by (simp add: eval_nat_numeral add.assoc)
  have e2: "(3 * u0 + 6 * u1 + 6 * u2) mod 7 = 2 mod 7"
    using sol[unfolded is_solution_def A B u, rule_format, of 2]
    by (simp add: eval_nat_numeral add.assoc)
  have c0: "6 * (u0 + 6 * u2) + 4 * (u0 + u1 + 6 * u2) + 4 * (3 * u0 + 6 * u1 + 6 * u2) = u0 + 7 * (3 * u0 + 4 * u1 + 12 * u2)"
    by (simp add: algebra_simps)
  have "(6 * (u0 + 6 * u2) + 4 * (u0 + u1 + 6 * u2) + 4 * (3 * u0 + 6 * u1 + 6 * u2)) mod 7 = (6 * 0 + 4 * 6 + 4 * 2) mod 7"
    by (intro mod_add_cong mod_mult_cong refl e0 e1 e2)
  then have "(u0 + 7 * (3 * u0 + 4 * u1 + 12 * u2)) mod 7 = (6 * 0 + 4 * 6 + 4 * 2) mod 7"
    by (simp only: c0)
  then have "u0 mod 7 = (6 * 0 + 4 * 6 + 4 * 2) mod 7"
    by (simp only: mod_mult_self2)
  then have s0: "u0 mod 7 = 4"
    by simp
  have c1: "6 * (u0 + 6 * u2) + 1 * (u0 + u1 + 6 * u2) + 0 * (3 * u0 + 6 * u1 + 6 * u2) = u1 + 7 * (1 * u0 + 0 * u1 + 6 * u2)"
    by (simp add: algebra_simps)
  have "(6 * (u0 + 6 * u2) + 1 * (u0 + u1 + 6 * u2) + 0 * (3 * u0 + 6 * u1 + 6 * u2)) mod 7 = (6 * 0 + 1 * 6 + 0 * 2) mod 7"
    by (intro mod_add_cong mod_mult_cong refl e0 e1 e2)
  then have "(u1 + 7 * (1 * u0 + 0 * u1 + 6 * u2)) mod 7 = (6 * 0 + 1 * 6 + 0 * 2) mod 7"
    by (simp only: c1)
  then have "u1 mod 7 = (6 * 0 + 1 * 6 + 0 * 2) mod 7"
    by (simp only: mod_mult_self2)
  then have s1: "u1 mod 7 = 6"
    by simp
  have c2: "5 * (u0 + 6 * u2) + 4 * (u0 + u1 + 6 * u2) + 4 * (3 * u0 + 6 * u1 + 6 * u2) = u2 + 7 * (3 * u0 + 4 * u1 + 11 * u2)"
    by (simp add: algebra_simps)
  have "(5 * (u0 + 6 * u2) + 4 * (u0 + u1 + 6 * u2) + 4 * (3 * u0 + 6 * u1 + 6 * u2)) mod 7 = (5 * 0 + 4 * 6 + 4 * 2) mod 7"
    by (intro mod_add_cong mod_mult_cong refl e0 e1 e2)
  then have "(u2 + 7 * (3 * u0 + 4 * u1 + 11 * u2)) mod 7 = (5 * 0 + 4 * 6 + 4 * 2) mod 7"
    by (simp only: c2)
  then have "u2 mod 7 = (5 * 0 + 4 * 6 + 4 * 2) mod 7"
    by (simp only: mod_mult_self2)
  then have s2: "u2 mod 7 = 4"
    by simp
  show ?thesis
    by (simp add: u s0 s1 s2)
qed

lemma system_12333_unique:
  assumes len: "length u = 5"
    and sol: "is_solution 7 (equations 7 [1, 2, 3, 3, 3]) (result_column 7 [1, 2, 3, 3, 3]) u"
  shows "map (\<lambda>x. x mod 7) u = [0, 6, 0, 4, 3]"
proof -
  obtain u0 u1 u2 u3 u4 where u: "u = [u0, u1, u2, u3, u4]"
    using len by (auto simp: eval_nat_numeral length_Suc_conv)
  have A: "equations 7 [1, 2, 3, 3, 3] = [[1, 0, 6, 0, 0], [2, 2, 6, 6, 6], [3, 6, 6, 5, 3], [3, 2, 6, 4, 5], [3, 5, 6, 3, 5]]"
    by code_simp
  have B: "result_column 7 [1, 2, 3, 3, 3] = [0, 5, 2, 1, 1]"
    by code_simp
  have e0: "(u0 + 6 * u2) mod 7 = 0 mod 7"
    using sol[unfolded is_solution_def A B u, rule_format, of 0]
    by (simp add: eval_nat_numeral add.assoc)
  have e1: "(2 * u0 + 2 * u1 + 6 * u2 + 6 * u3 + 6 * u4) mod 7 = 5 mod 7"
    using sol[unfolded is_solution_def A B u, rule_format, of 1]
    by (simp add: eval_nat_numeral add.assoc)
  have e2: "(3 * u0 + 6 * u1 + 6 * u2 + 5 * u3 + 3 * u4) mod 7 = 2 mod 7"
    using sol[unfolded is_solution_def A B u, rule_format, of 2]
    by (simp add: eval_nat_numeral add.assoc)
  have e3: "(3 * u0 + 2 * u1 + 6 * u2 + 4 * u3 + 5 * u4) mod 7 = 1 mod 7"
    using sol[unfolded is_solution_def A B u, rule_format, of 3]
    by (simp add: eval_nat_numeral add.assoc)
  have e4: "(3 * u0 + 5 * u1 + 6 * u2 + 3 * u3 + 5 * u4) mod 7 = 1 mod 7"
    using sol[unfolded is_solution_def A B u, rule_format, of 4]
    by (simp add: eval_nat_numeral add.assoc)
  have c0: "3 * (u0 + 6 * u2) + 0 * (2 * u0 + 2 * u1 + 6 * u2 + 6 * u3 + 6 * u4) + 3 * (3 * u0 + 6 * u1 + 6 * u2 + 5 * u3 + 3 * u4) + 3 * (3 * u0 + 2 * u1 + 6 * u2 + 4 * u3 + 5 * u4) + 5 * (3 * u0 + 5 * u1 + 6 * u2 + 3 * u3 + 5 * u4) = u0 + 7 * (5 * u0 + 7 * u1 + 12 * u2 + 6 * u3 + 7 * u4)"
    by (simp add: algebra_simps)
  have "(3 * (u0 + 6 * u2) + 0 * (2 * u0 + 2 * u1 + 6 * u2 + 6 * u3 + 6 * u4) + 3 * (3 * u0 + 6 * u1 + 6 * u2 + 5 * u3 + 3 * u4) + 3 * (3 * u0 + 2 * u1 + 6 * u2 + 4 * u3 + 5 * u4) + 5 * (3 * u0 + 5 * u1 + 6 * u2 + 3 * u3 + 5 * u4)) mod 7 = (3 * 0 + 0 * 5 + 3 * 2 + 3 * 1 + 5 * 1) mod 7"
    by (intro mod_add_cong mod_mult_cong refl e0 e1 e2 e3 e4)
  then have "(u0 + 7 * (5 * u0 + 7 * u1 + 12 * u2 + 6 * u3 + 7 * u4)) mod 7 = (3 * 0 + 0 * 5 + 3 * 2 + 3 * 1 + 5 * 1) mod 7"
    by (simp only: c0)
  then have "u0 mod 7 = (3 * 0 + 0 * 5 + 3 * 2 + 3 * 1 + 5 * 1) mod 7"
    by (simp only: mod_mult_self2)
  then have s0: "u0 mod 7 = 0"
    by simp
  have c1: "4 * (u0 + 6 * u2) + 6 * (2 * u0 + 2 * u1 + 6 * u2 + 6 * u3 + 6 * u4) + 0 * (3 * u0 + 6 * u1 + 6 * u2 + 5 * u3 + 3 * u4) + 1 * (3 * u0 + 2 * u1 + 6 * u2 + 4 * u3 + 5 * u4) + 3 * (3 * u0 + 5 * u1 + 6 * u2 + 3 * u3 + 5 * u4) = u1 + 7 * (4 * u0 + 4 * u1 + 12 * u2 + 7 * u3 + 8 * u4)"
    by (simp add: algebra_simps)
  have "(4 * (u0 + 6 * u2) + 6 * (2 * u0 + 2 * u1 + 6 * u2 + 6 * u3 + 6 * u4) + 0 * (3 * u0 + 6 * u1 + 6 * u2 + 5 * u3 + 3 * u4) + 1 * (3 * u0 + 2 * u1 + 6 * u2 + 4 * u3 + 5 * u4) + 3 * (3 * u0 + 5 * u1 + 6 * u2 + 3 * u3 + 5 * u4)) mod 7 = (4 * 0 + 6 * 5 + 0 * 2 + 1 * 1 + 3 * 1) mod 7"
    by (intro mod_add_cong mod_mult_cong refl e0 e1 e2 e3 e4)
  then have "(u1 + 7 * (4 * u0 + 4 * u1 + 12 * u2 + 7 * u3 + 8 * u4)) mod 7 = (4 * 0 + 6 * 5 + 0 * 2 + 1 * 1 + 3 * 1) mod 7"
    by (simp only: c1)
  then have "u1 mod 7 = (4 * 0 + 6 * 5 + 0 * 2 + 1 * 1 + 3 * 1) mod 7"
    by (simp only: mod_mult_self2)
  then have s1: "u1 mod 7 = 6"
    by simp
  have c2: "2 * (u0 + 6 * u2) + 0 * (2 * u0 + 2 * u1 + 6 * u2 + 6 * u3 + 6 * u4) + 3 * (3 * u0 + 6 * u1 + 6 * u2 + 5 * u3 + 3 * u4) + 3 * (3 * u0 + 2 * u1 + 6 * u2 + 4 * u3 + 5 * u4) + 5 * (3 * u0 + 5 * u1 + 6 * u2 + 3 * u3 + 5 * u4) = u2 + 7 * (5 * u0 + 7 * u1 + 11 * u2 + 6 * u3 + 7 * u4)"
    by (simp add: algebra_simps)
  have "(2 * (u0 + 6 * u2) + 0 * (2 * u0 + 2 * u1 + 6 * u2 + 6 * u3 + 6 * u4) + 3 * (3 * u0 + 6 * u1 + 6 * u2 + 5 * u3 + 3 * u4) + 3 * (3 * u0 + 2 * u1 + 6 * u2 + 4 * u3 + 5 * u4) + 5 * (3 * u0 + 5 * u1 + 6 * u2 + 3 * u3 + 5 * u4)) mod 7 = (2 * 0 + 0 * 5 + 3 * 2 + 3 * 1 + 5 * 1) mod 7"
    by (intro mod_add_cong mod_mult_cong refl e0 e1 e2 e3 e4)
  then have "(u2 + 7 * (5 * u0 + 7 * u1 + 11 * u2 + 6 * u3 + 7 * u4)) mod 7 = (2 * 0 + 0 * 5 + 3 * 2 + 3 * 1 + 5 * 1) mod 7"
    by (simp only: c2)
  then have "u2 mod 7 = (2 * 0 + 0 * 5 + 3 * 2 + 3 * 1 + 5 * 1) mod 7"
    by (simp only: mod_mult_self2)
  then have s2: "u2 mod 7 = 0"
    by simp
  have c3: "5 * (u0 + 6 * u2) + 4 * (2 * u0 + 2 * u1 + 6 * u2 + 6 * u3 + 6 * u4) + 0 * (3 * u0 + 6 * u1 + 6 * u2 + 5 * u3 + 3 * u4) + 4 * (3 * u0 + 2 * u1 + 6 * u2 + 4 * u3 + 5 * u4) + 1 * (3 * u0 + 5 * u1 + 6 * u2 + 3 * u3 + 5 * u4) = u3 + 7 * (4 * u0 + 3 * u1 + 12 * u2 + 6 * u3 + 7 * u4)"
    by (simp add: algebra_simps)
  have "(5 * (u0 + 6 * u2) + 4 * (2 * u0 + 2 * u1 + 6 * u2 + 6 * u3 + 6 * u4) + 0 * (3 * u0 + 6 * u1 + 6 * u2 + 5 * u3 + 3 * u4) + 4 * (3 * u0 + 2 * u1 + 6 * u2 + 4 * u3 + 5 * u4) + 1 * (3 * u0 + 5 * u1 + 6 * u2 + 3 * u3 + 5 * u4)) mod 7 = (5 * 0 + 4 * 5 + 0 * 2 + 4 * 1 + 1 * 1) mod 7"
    by (intro mod_add_cong mod_mult_cong refl e0 e1 e2 e3 e4)
  then have "(u3 + 7 * (4 * u0 + 3 * u1 + 12 * u2 + 6 * u3 + 7 * u4)) mod 7 = (5 * 0 + 4 * 5 + 0 * 2 + 4 * 1 + 1 * 1) mod 7"
    by (simp only: c3)
  then have "u3 mod 7 = (5 * 0 + 4 * 5 + 0 * 2 + 4 * 1 + 1 * 1) mod 7"
    by (simp only: mod_mult_self2)
  then have s3: "u3 mod 7 = 4"
    by simp
  have c4: "0 * (u0 + 6 * u2) + 0 * (2 * u0 + 2 * u1 + 6 * u2 + 6 * u3 + 6 * u4) + 3 * (3 * u0 + 6 * u1 + 6 * u2 + 5 * u3 + 3 * u4) + 1 * (3 * u0 + 2 * u1 + 6 * u2 + 4 * u3 + 5 * u4) + 3 * (3 * u0 + 5 * u1 + 6 * u2 + 3 * u3 + 5 * u4) = u4 + 7 * (3 * u0 + 5 * u1 + 6 * u2 + 4 * u3 + 4 * u4)"
    by (simp add: algebra_simps)
  have "(0 * (u0 + 6 * u2) + 0 * (2 * u0 + 2 * u1 + 6 * u2 + 6 * u3 + 6 * u4) + 3 * (3 * u0 + 6 * u1 + 6 * u2 + 5 * u3 + 3 * u4) + 1 * (3 * u0 + 2 * u1 + 6 * u2 + 4 * u3 + 5 * u4) + 3 * (3 * u0 + 5 * u1 + 6 * u2 + 3 * u3 + 5 * u4)) mod 7 = (0 * 0 + 0 * 5 + 3 * 2 + 1 * 1 + 3 * 1) mod 7"
    by (intro mod_add_cong mod_mult_cong refl e0 e1 e2 e3 e4)
  then have "(u4 + 7 * (3 * u0 + 5 * u1 + 6 * u2 + 4 * u3 + 4 * u4)) mod 7 = (0 * 0 + 0 * 5 + 3 * 2 + 1 * 1 + 3 * 1) mod 7"
    by (simp only: c4)
  then have "u4 mod 7 = (0 * 0 + 0 * 5 + 3 * 2 + 1 * 1 + 3 * 1) mod 7"
    by (simp only: mod_mult_self2)
  then have s4: "u4 mod 7 = 3"
    by simp
  show ?thesis
    by (simp add: u s0 s1 s2 s3 s4)
qed

lemma system_111_unsolvable:
  assumes len: "length u = 3"
  shows "\<not> is_solution 7 (equations 7 [1, 1, 1]) (result_column 7 [1, 1, 1]) u"
proof
  assume sol: "is_solution 7 (equations 7 [1, 1, 1]) (result_column 7 [1, 1, 1]) u"
  obtain a b c where u: "u = [a, b, c]"
    using len by (auto simp: eval_nat_numeral length_Suc_conv)
  have A: "equations 7 [1, 1, 1] = [[1, 0, 6], [1, 1, 6], [1, 2, 6]]"
    by code_simp
  have B: "result_column 7 [1, 1, 1] = [0, 6, 3]"
    by code_simp
  have e0: "(a + 6 * c) mod 7 = 0"
    using sol[unfolded is_solution_def A B u, rule_format, of 0]
    by (simp add: eval_nat_numeral add.assoc)
  have e1: "(a + b + 6 * c) mod 7 = 6"
    using sol[unfolded is_solution_def A B u, rule_format, of 1]
    by (simp add: eval_nat_numeral add.assoc)
  have e2: "(a + 2 * b + 6 * c) mod 7 = 3"
    using sol[unfolded is_solution_def A B u, rule_format, of 2]
    by (simp add: eval_nat_numeral add.assoc)
  from e0 e1 e2 show False by presburger
qed

section \<open>The unique decoder: message recovery\<close>

lemma survivors_distinct:
  assumes "int n \<le> q"
  shows "distinct (map (\<lambda>(x, y). x mod q)
           (zip (map int (filter P [0..<n])) (map f (filter P [0..<n]))))"
proof -
  let ?S = "filter P [0..<n]"
  have "map (\<lambda>(x, y). x mod q) (zip (map int ?S) (map f ?S)) = map (\<lambda>i. int i mod q) ?S"
    by (simp add: zip_map_map zip_same_conv_map o_def)
  also have "\<dots> = map int ?S"
    using assms by (intro map_cong) auto
  finally show ?thesis by (simp add: distinct_map)
qed

lemma decoder_after_division:
  assumes "solve_right q (length codeword) (equations q codeword) (result_column q codeword)
             = Some unknowns"
    and "poly_rem q (poly q (drop t unknowns)) (poly q (take t unknowns @ [1])) = []"
    and "int (length codeword) \<le> q"
  shows "\<exists>S L. surviving_positions codeword t q = Some S
           \<and> lagrange_polynomial q (zip (map int S) (map (\<lambda>index. codeword ! index) S)) = Inr L
           \<and> rs_decoder codeword k t q
               = Inr (Some (poly q (map (\<lambda>index. peval q L (int index)) [0..<k])))"
proof -
  let ?S = "filter (\<lambda>alpha. peval q (poly q (take t unknowns @ [1])) (int alpha) \<noteq> 0)
              [0..<length codeword]"
  let ?pts = "zip (map int ?S) (map (\<lambda>index. codeword ! index) ?S)"
  have S: "surviving_positions codeword t q = Some ?S"
    by (simp add: surviving_positions_def assms(1))
  have L: "lagrange_polynomial q ?pts = Inr (poly q (lagrange_sum q (map fst ?pts) ?pts))"
    unfolding lagrange_polynomial_def
    using survivors_distinct[OF assms(3)] by simp
  have "rs_decoder codeword k t q
        = Inr (Some (poly q (map (\<lambda>index. peval q (poly q (lagrange_sum q (map fst ?pts) ?pts))
                                           (int index)) [0..<k])))"
    unfolding rs_decoder_def Let_def
    by (simp only: assms(1) assms(2) option.case L sum.case not_not refl not_True_eq_False if_False)
  with S L show ?thesis by blast
qed

section \<open>Claims about the unique decoder\<close>

text \<open>
  C1: for \<open>t \<le> floor((n - k) / 2)\<close> and at most \<open>t\<close> altered symbols, \<open>rs_decoder\<close> returns the
  message.  The source builds the system of an error locator of degree 2 whatever \<open>t\<close> is
  (\<open>alpha ** 2\<close> in the right-hand side, two columns for \<open>E\<close>), and then cuts the solution
  at \<open>num_of_errors\<close>.  Over GF(7) the message \<open>[1]\<close> with \<open>n = 3\<close> has the codeword
  \<open>[1, 1, 1]\<close>; with one altered symbol, \<open>[1, 1, 3]\<close>, and \<open>t = 1 = floor((3 - 1) / 2)\<close> the
  only solution of the system is \<open>(4, 6, 4)\<close> (lemma \<open>system_113_unique\<close>), which the source
  reads as \<open>E = x + 4\<close> and \<open>Q = 4 x + 6\<close>; the remainder is 4 and the function returns
  \<open>None\<close>.
\<close>

theorem decoder_fails_within_radius:
  "rs_encoder [1] 3 7 = Inr [1, 1, 1]
   \<and> length (filter (\<lambda>(sent, received). sent \<noteq> received) (zip [1, 1, 1] [1, 1, 3::int])) = 1
   \<and> (1::nat) \<le> (3 - 1) div 2
   \<and> solve_right 7 3 (equations 7 [1, 1, 3]) (result_column 7 [1, 1, 3]) = Some [4, 6, 4]
   \<and> poly_rem 7 (poly 7 (drop 1 [4, 6, 4])) (poly 7 (take 1 [4, 6, 4] @ [1])) = [4]
   \<and> rs_decoder [1, 1, 3] 1 1 7 = Inr None"
  by code_simp

text \<open>
  C2: decoding the unaltered codeword with \<open>t = 0\<close> returns the message.  Over GF(7) the
  message \<open>[1]\<close> with \<open>n = 3\<close> has the codeword \<open>[1, 1, 1]\<close>; the system the source builds
  for it, that of a locator of degree 2, has no solution (lemma \<open>system_111_unsolvable\<close>),
  and the function returns \<open>None\<close>.
\<close>

theorem decoder_fails_without_errors:
  "rs_encoder [1] 3 7 = Inr [1, 1, 1]
   \<and> solve_right 7 3 (equations 7 [1, 1, 1]) (result_column 7 [1, 1, 1]) = None
   \<and> rs_decoder [1, 1, 1] 1 0 7 = Inr None"
  by code_simp

text \<open>
  C4: the system has the \<open>t\<close> low coefficients of \<open>E\<close> and the coefficients of \<open>Q\<close> of degree
  \<open>\<le> n - 1 - t\<close> as unknowns, and its shape varies with \<open>t\<close>.  The system of the source
  does not mention \<open>num_of_errors\<close>: it is the system of the specification for \<open>t = 2\<close>.
  For the received word \<open>[1, 1, 1]\<close> over GF(7) and \<open>t = 1\<close> the two differ.
\<close>

theorem decoder_system_ignores_error_bound:
  "equations 7 [1, 1, 1] = [[1, 0, 6], [1, 1, 6], [1, 2, 6]]
   \<and> result_column 7 [1, 1, 1] = [0, 6, 3]
   \<and> spec_equations 7 [1, 1, 1] 1 = [[1, 6, 0], [1, 6, 6], [1, 6, 5]]
   \<and> spec_result_column 7 [1, 1, 1] 1 = [0, 6, 5]
   \<and> spec_equations 7 [1, 1, 1] 2 = equations 7 [1, 1, 1]
   \<and> spec_result_column 7 [1, 1, 1] 2 = result_column 7 [1, 1, 1]"
  by code_simp

text \<open>
  C7, as stated: with fewer than \<open>k\<close> surviving positions the decoder fails with
  \<open>InsufficientCorrectSymbols\<close>.  It fails: for the received word \<open>[1, 2, 3, 3, 3]\<close> over
  GF(7), \<open>k = 4\<close> and \<open>t = 2\<close>, the only solution of the system is \<open>(0, 6, 0, 4, 3)\<close> (lemma
  \<open>system_12333_unique\<close>), that is \<open>E = x (x - 1)\<close> and \<open>Q = 3 E\<close>; the three positions
  \<open>2, 3, 4\<close> survive, and the decoder returns the message \<open>[3, 3, 3, 3]\<close>.
\<close>

theorem decoder_returns_with_few_survivors:
  "surviving_positions [1, 2, 3, 3, 3] 2 7 = Some [2, 3, 4]
   \<and> length [2, 3, 4::nat] < 4
   \<and> rs_decoder [1, 2, 3, 3, 3] 4 2 7 = Inr (Some [3, 3, 3, 3])"
  by code_simp

text \<open>
  C7, amended: the message-recovery step does not check the number of surviving positions.
  Whenever the system has a solution and \<open>E\<close> divides \<open>Q\<close> (and \<open>n \<le> q\<close>, so that the
  positions are distinct in GF(q)), the decoder interpolates through the positions that
  survive, however few, and returns the evaluations at \<open>0, ..., k - 1\<close> as the message;
  there is no \<open>InsufficientCorrectSymbols\<close> signal.
\<close>

theorem decoder_no_survivor_check:
  assumes "solve_right q (length codeword) (equations q codeword) (result_column q codeword)
             = Some unknowns"
    and "poly_rem q (poly q (drop t unknowns)) (poly q (take t unknowns @ [1])) = []"
    and "int (length codeword) \<le> q"
  shows "\<exists>S L. surviving_positions codeword t q = Some S
           \<and> lagrange_polynomial q (zip (map int S) (map (\<lambda>index. codeword ! index) S)) = Inr L
           \<and> rs_decoder codeword k t q
               = Inr (Some (poly q (map (\<lambda>index. peval q L (int index)) [0..<k])))"
  using assms by (rule decoder_after_division)

theorem decoder_no_survivor_check_witness:
  "solve_right 7 (length [1, 2, 3, 3, 3::int]) (equations 7 [1, 2, 3, 3, 3])
       (result_column 7 [1, 2, 3, 3, 3]) = Some [0, 6, 0, 4, 3]
   \<and> poly_rem 7 (poly 7 (drop 2 [0, 6, 0, 4, 3])) (poly 7 (take 2 [0, 6, 0, 4, 3] @ [1])) = []
   \<and> int (length [1, 2, 3, 3, 3::int]) \<le> 7
   \<and> (\<exists>S L. surviving_positions [1, 2, 3, 3, 3] 2 7 = Some S
         \<and> lagrange_polynomial 7 (zip (map int S) (map (\<lambda>index. [1, 2, 3, 3, 3] ! index) S)) = Inr L
         \<and> rs_decoder [1, 2, 3, 3, 3] 4 2 7
             = Inr (Some (poly 7 (map (\<lambda>index. peval 7 L (int index)) [0..<4]))))"
proof -
  have h1: "solve_right 7 (length [1, 2, 3, 3, 3::int]) (equations 7 [1, 2, 3, 3, 3])
              (result_column 7 [1, 2, 3, 3, 3]) = Some [0, 6, 0, 4, 3]"
    by code_simp
  have h2: "poly_rem 7 (poly 7 (drop 2 [0, 6, 0, 4, 3])) (poly 7 (take 2 [0, 6, 0, 4, 3] @ [1])) = []"
    by code_simp
  have h3: "int (length [1, 2, 3, 3, 3::int]) \<le> 7"
    by simp
  from decoder_no_survivor_check [OF h1 h2 h3, of 4] h1 h2 h3 show ?thesis
    by blast
qed

section \<open>Claims about the list decoder\<close>

lemma list_decoder_result:
  assumes "0 < k" and "right_kernel q (list_equations q codeword k) = unknowns # rest"
  shows "rs_list_decoder right_kernel factor codeword k t q =
     (if extract_factors factor q k (isqrt (2 * k * length codeword)) unknowns = [] then Inr None
      else Inr (Some (map (\<lambda>f. map (\<lambda>a. peval q f (int a)) [0..<k])
             (get_factors_with_less_errors q
                (extract_factors factor q k (isqrt (2 * k * length codeword)) unknowns)
                (map int [0..<length codeword]) codeword t (int k)))))"
  using assms by (simp add: rs_list_decoder_def Let_def)

text \<open>
  C6, as stated: when no factor has the form \<open>y - P(x)\<close> the list decoder returns an empty
  list, never a distinct non-list value.  It fails: line 241 returns \<open>None\<close>.  For the
  received word \<open>[1, 2]\<close> over GF(7) with \<open>k = 1\<close>, the vector \<open>(1, 0, 0, 0, 5, 6)\<close> lies in
  the null space of the system; it is \<open>Q = 1 + 5 x y + 6 y\<^sup>2 = 5 (x y + 4 y\<^sup>2 + 3)\<close>, which
  is irreducible (as a polynomial in \<open>y\<close> the factor has the discriminant \<open>x\<^sup>2 + 1\<close>,
  which is no square over GF(7)); \<open>get_p_from_factor\<close> rejects the factor and the decoder
  returns \<open>None\<close>.
\<close>

theorem list_decoder_returns_none:
  "map (\<lambda>row. (\<Sum>j\<leftarrow>[0..<6]. row ! j * [1, 0, 0, 0, 5, 6] ! j) mod 7) (list_equations 7 [1, 2] 1)
     = [0, 0]
   \<and> get_p_from_factor 7 [[3], [0, 1], [4]] = None
   \<and> rs_list_decoder (\<lambda>q A. [[1, 0, 0, 0, 5, 6]]) (\<lambda>q Q. [([[3], [0, 1], [4]], 1)]) [1, 2] 1 1 7
       = Inr None"
  by code_simp

text \<open>
  C6, amended: for \<open>k \<ge> 1\<close> and a kernel basis that is not empty, the two no-candidate
  outcomes are reported differently and neither raises: when no factor yields a
  polynomial \<open>P\<close> the list decoder returns \<open>None\<close>; when some factor does, it returns the
  list of the messages of the factors that pass the filter, which is the empty list when
  the filter removes them all.
\<close>

theorem list_decoder_outcomes:
  assumes "0 < k" and "right_kernel q (list_equations q codeword k) = unknowns # rest"
    and "factors_list = extract_factors factor q k (isqrt (2 * k * length codeword)) unknowns"
    and "good_factors = get_factors_with_less_errors q factors_list
                          (map int [0..<length codeword]) codeword t (int k)"
  shows "(factors_list = [] \<longrightarrow> rs_list_decoder right_kernel factor codeword k t q = Inr None)
    \<and> (factors_list \<noteq> [] \<longrightarrow>
         rs_list_decoder right_kernel factor codeword k t q
           = Inr (Some (map (\<lambda>f. map (\<lambda>a. peval q f (int a)) [0..<k]) good_factors)))
    \<and> (factors_list \<noteq> [] \<and> good_factors = [] \<longrightarrow>
         rs_list_decoder right_kernel factor codeword k t q = Inr (Some []))"
proof -
  have "rs_list_decoder right_kernel factor codeword k t q =
     (if factors_list = [] then Inr None
      else Inr (Some (map (\<lambda>f. map (\<lambda>a. peval q f (int a)) [0..<k]) good_factors)))"
    unfolding assms(3,4) using assms(1,2) by (rule list_decoder_result)
  then show ?thesis by simp
qed

theorem list_decoder_outcomes_witness:
  "(0::nat) < 1
   \<and> [[1], [2]] = extract_factors (\<lambda>q Q. [([[6], [1]], 1), ([[5], [1]], 1)]) 7 1
                     (isqrt (2 * 1 * length [1, 2::int])) [2, 0, 0, 4, 0, 1]
   \<and> [] = get_factors_with_less_errors 7 [[1], [2]] (map int [0..<length [1, 2::int]]) [1, 2] 0 (int 1)
   \<and> rs_list_decoder (\<lambda>q A. [[2, 0, 0, 4, 0, 1]]) (\<lambda>q Q. [([[6], [1]], 1), ([[5], [1]], 1)])
        [1, 2] 1 0 7 = Inr (Some [])"
proof -
  have h3: "[[1], [2]] = extract_factors (\<lambda>q Q. [([[6], [1]], 1), ([[5], [1]], 1)]) 7 1
                     (isqrt (2 * 1 * length [1, 2::int])) [2, 0, 0, 4, 0, 1]"
    by code_simp
  have h4: "[] = get_factors_with_less_errors 7 [[1], [2]] (map int [0..<length [1, 2::int]]) [1, 2] 0 (int 1)"
    by code_simp
  have "rs_list_decoder (\<lambda>q A. [[2, 0, 0, 4, 0, 1]]) (\<lambda>q Q. [([[6], [1]], 1), ([[5], [1]], 1)])
        [1, 2] 1 0 7 = Inr (Some [])"
    using list_decoder_outcomes [where k = 1 and q = 7 and codeword = "[1, 2]"
        and right_kernel = "\<lambda>q A. [[2, 0, 0, 4, 0, 1]]" and unknowns = "[2, 0, 0, 4, 0, 1]"
        and rest = "[]" and factor = "\<lambda>q Q. [([[6], [1]], 1), ([[5], [1]], 1)]"
        and factors_list = "[[1], [2]]" and good_factors = "[]" and t = 0, OF _ _ h3 h4]
    by simp
  with h3 h4 show ?thesis by simp
qed

end
